theory Spec2Isabelle
  imports Complex_Main "HOL-Library.AList"
begin

section \<open>The environment of the benchmark\<close>

text \<open>
  The program \<^verbatim>\<open>src/test1.py\<close> talks to two things it does not control: the wall clock
  (\<^verbatim>\<open>time.time()\<close>) and the database client (\<^verbatim>\<open>libsql_client\<close>). Both are modelled as
  oracles: the \<open>k\<close>-th reading of the clock and the outcome of the \<open>k\<close>-th call of
  \<^verbatim>\<open>client.execute\<close>. Nothing is assumed about either, so every theorem holds for all
  clocks and all backends unless it says otherwise.

  A reading of the clock is a Python float; it is modelled by the real number it denotes.
  The theorems below depend only on which readings are subtracted from which; the concrete
  runs use small whole numbers of seconds, on which float and real arithmetic agree.
\<close>

datatype sql_value = Null | Integer int | Float real | Text string | Blob "nat list"

text \<open>The raw result set of the client: \<^verbatim>\<open>columns\<close>, \<^verbatim>\<open>rows\<close>, \<^verbatim>\<open>last_insert_rowid\<close>,
  \<^verbatim>\<open>rows_affected\<close>.\<close>

record result_set =
  rs_columns :: "string list"
  rs_rows :: "sql_value list list"
  rs_last_insert_rowid :: "int option"
  rs_rows_affected :: int

text \<open>What one call of \<^verbatim>\<open>client.execute\<close> does: it returns a result set, raises
  \<^verbatim>\<open>LibsqlError\<close> (with its \<^verbatim>\<open>explanation\<close> and \<^verbatim>\<open>code\<close>), or raises anything
  else (a transport failure, say).\<close>

datatype outcome =
    Returns result_set
  | LibsqlError string string
  | Raises string

record env =
  clock :: "nat \<Rightarrow> real"
  backend :: "nat \<Rightarrow> outcome"

text \<open>The exceptions that leave the program's own functions.\<close>

datatype exn = TypeError | IndexError | KeyError | AssertionError | ClientError string

text \<open>The error descriptor and the result object (\<^verbatim>\<open>ResultObject\<close>, lines 8-20).\<close>

record error_descr =
  message :: string
  code :: string

record result_object =
  columns :: "string list option"
  records :: "(string \<times> sql_value) list list option"
  last_insert_rowid :: "int option"
  rows_affected :: "int option"
  count :: "nat option"
  error :: "error_descr option"
  success :: "bool option"
  request_duration :: "real option"
  serialization_duration :: "real option"
  total_duration :: "real option"

text \<open>
  The state threaded through the program: how many clock readings and client calls have
  been made, the intervals passed to \<^verbatim>\<open>asyncio.sleep\<close> so far, and the trace of the
  calls of \<^verbatim>\<open>SQLClient.execute\<close> that returned (statement, arguments, returned object).
  Console output is not modelled.
\<close>

record world =
  ticks :: nat
  calls :: nat
  sleeps :: "nat list"
  trace :: "(string \<times> sql_value list option \<times> result_object) list"

definition now :: "env \<Rightarrow> world \<Rightarrow> real \<times> world" where
  "now e w = (clock e (ticks w), w\<lparr>ticks := Suc (ticks w)\<rparr>)"

definition sleep :: "nat \<Rightarrow> world \<Rightarrow> world" where
  "sleep interval w = w\<lparr>sleeps := sleeps w @ [interval]\<rparr>"

section \<open>Result Normalizer: \<^verbatim>\<open>ResultObject\<close>\<close>

text \<open>
  A record of a row is a Python \<^verbatim>\<open>dict\<close>: an association list in insertion order, where
  assigning to a key that is present replaces its value in place (\<open>AList.update\<close>).
  The inner loop of \<^verbatim>\<open>_init_result_set\<close> (lines 29-31) assigns
  \<^verbatim>\<open>record[result_set.columns[x]] = field\<close> for each field of the row; Python raises
  \<^verbatim>\<open>IndexError\<close> when the row is longer than the column list.
\<close>

fun fill_record ::
  "string list \<Rightarrow> nat \<Rightarrow> sql_value list \<Rightarrow> (string \<times> sql_value) list
     \<Rightarrow> exn + (string \<times> sql_value) list" where
  "fill_record cols x [] rec = Inr rec"
| "fill_record cols x (field # row) rec =
     (if x < length cols
      then fill_record cols (Suc x) row (AList.update (cols ! x) field rec)
      else Inl IndexError)"

text \<open>The outer loop (lines 27-32): one record per row, appended in order.\<close>

fun fill_records ::
  "string list \<Rightarrow> sql_value list list \<Rightarrow> (string \<times> sql_value) list list
     \<Rightarrow> exn + (string \<times> sql_value) list list" where
  "fill_records cols [] recs = Inr recs"
| "fill_records cols (row # rows) recs =
     (case fill_record cols 0 row [] of
        Inl ex \<Rightarrow> Inl ex
      | Inr rec \<Rightarrow> fill_records cols rows (recs @ [rec]))"

text \<open>The defaults of \<^verbatim>\<open>__init__\<close> (lines 10-20): every field is \<^verbatim>\<open>None\<close>. The three
  timing attributes do not exist until \<^verbatim>\<open>SQLClient.execute\<close> sets them; an attribute that
  does not exist is \<open>None\<close> here.\<close>

definition defaults :: result_object where
  "defaults = \<lparr>columns = None, records = None, last_insert_rowid = None,
     rows_affected = None, count = None, error = None, success = None,
     request_duration = None, serialization_duration = None, total_duration = None\<rparr>"

definition init_result_set :: "result_object \<Rightarrow> result_set \<Rightarrow> exn + result_object" where
  "init_result_set self rs =
     (case fill_records (rs_columns rs) (rs_rows rs) [] of
        Inl ex \<Rightarrow> Inl ex
      | Inr recs \<Rightarrow> Inr (self\<lparr>columns := Some (rs_columns rs), records := Some recs,
          last_insert_rowid := rs_last_insert_rowid rs,
          rows_affected := Some (rs_rows_affected rs),
          count := Some (length recs), success := Some True\<rparr>))"

text \<open>\<^verbatim>\<open>ResultObject(result_set=None, **kwargs)\<close>; the program passes the keywords
  \<^verbatim>\<open>success\<close> and \<^verbatim>\<open>error\<close> only, so the keyword dictionary is the pair of them
  (\<open>None\<close> for a keyword that is not passed).\<close>

definition ResultObject ::
  "result_set option \<Rightarrow> bool option \<Rightarrow> error_descr option \<Rightarrow> exn + result_object" where
  "ResultObject result_set kw_success kw_error =
     (let self = defaults;
          self = (case kw_success of None \<Rightarrow> self | Some s \<Rightarrow> self\<lparr>success := Some s\<rparr>);
          self = (case kw_error of None \<Rightarrow> self | Some er \<Rightarrow> self\<lparr>error := Some er\<rparr>)
      in case result_set of None \<Rightarrow> Inr self | Some rs \<Rightarrow> init_result_set self rs)"

section \<open>Executor: \<^verbatim>\<open>SQLClient.execute\<close>\<close>

text \<open>
  Lines 64-78. The clock is read once before the call, once when the call has returned,
  and three more times around the construction of the result object. A \<^verbatim>\<open>LibsqlError\<close>
  is caught and turned into a result object; any other exception of the client, and an
  exception of the normalizer, leaves the function.
\<close>

definition execute ::
  "env \<Rightarrow> string \<Rightarrow> sql_value list option \<Rightarrow> world \<Rightarrow> exn + result_object \<times> world" where
  "execute e sql args w =
     (let (time_start, w1) = now e w;
          answer = backend e (calls w1);
          w2 = w1\<lparr>calls := Suc (calls w1)\<rparr>
      in case answer of
           Raises what \<Rightarrow> Inl (ClientError what)
         | LibsqlError explanation cd \<Rightarrow>
             (case ResultObject None (Some False)
                     (Some \<lparr>message = explanation, code = cd\<rparr>) of
                Inl ex \<Rightarrow> Inl ex
              | Inr obj \<Rightarrow> Inr (obj, w2\<lparr>trace := trace w2 @ [(sql, args, obj)]\<rparr>))
         | Returns result_set \<Rightarrow>
             (let (t1, w3) = now e w2;
                  request_dur = t1 - time_start;
                  (start_serialization, w4) = now e w3
              in case ResultObject (Some result_set) None None of
                   Inl ex \<Rightarrow> Inl ex
                 | Inr obj \<Rightarrow>
                     (let obj = obj\<lparr>request_duration := Some request_dur\<rparr>;
                          (t3, w5) = now e w4;
                          obj = obj\<lparr>serialization_duration := Some (t3 - start_serialization)\<rparr>;
                          (t4, w6) = now e w5;
                          obj = obj\<lparr>total_duration := Some (t4 - time_start)\<rparr>
                      in Inr (obj, w6\<lparr>trace := trace w6 @ [(sql, args, obj)]\<rparr>))))"

section \<open>Scoped Timer: \<^verbatim>\<open>Bench\<close>\<close>

text \<open>The attribute \<^verbatim>\<open>_duration\<close> is the field \<open>cached\<close>; \<^verbatim>\<open>duration\<close> itself is a
  property (lines 98-107).\<close>

record bench =
  title :: string
  time_start :: "real option"
  time_end :: "real option"
  cached :: "real option"

text \<open>The setter of the property (lines 105-107).\<close>

definition set_duration :: "real option \<Rightarrow> bench \<Rightarrow> bench" where
  "set_duration v self = self\<lparr>cached := v\<rparr>"

text \<open>\<^verbatim>\<open>__init__\<close> (lines 82-86); its last line goes through the setter.\<close>

definition Bench :: "string \<Rightarrow> bench" where
  "Bench ttl = set_duration None \<lparr>title = ttl, time_start = None, time_end = None, cached = None\<rparr>"

text \<open>\<^verbatim>\<open>reset\<close> (lines 88-91).\<close>

definition reset :: "env \<Rightarrow> bench \<Rightarrow> world \<Rightarrow> bench \<times> world" where
  "reset e self w =
     (let self = self\<lparr>time_end := None\<rparr>;
          self = self\<lparr>cached := None\<rparr>;
          (t, w1) = now e w
      in (self\<lparr>time_start := Some t\<rparr>, w1))"

text \<open>\<^verbatim>\<open>__enter__\<close> (lines 93-96).\<close>

definition enter :: "env \<Rightarrow> bench \<Rightarrow> world \<Rightarrow> bench \<times> world" where
  "enter e self w = (let (t, w1) = now e w in (self\<lparr>time_start := Some t\<rparr>, w1))"

text \<open>
  The getter (lines 98-103). \<^verbatim>\<open>not self._duration\<close> holds when the attribute is
  \<^verbatim>\<open>None\<close> and also when it is the float zero. Then the clock is read twice: the first
  reading becomes \<^verbatim>\<open>time_end\<close>, the second one minus \<^verbatim>\<open>time_start\<close> becomes the duration;
  subtracting \<^verbatim>\<open>None\<close> from a float raises \<^verbatim>\<open>TypeError\<close>, after both readings.
\<close>

definition falsy :: "real option \<Rightarrow> bool" where
  "falsy v = (case v of None \<Rightarrow> True | Some d \<Rightarrow> d = 0)"

definition duration :: "env \<Rightarrow> bench \<Rightarrow> world \<Rightarrow> exn + real \<times> bench \<times> world" where
  "duration e self w =
     (if falsy (cached self)
      then (let (t1, w1) = now e w;
                self = self\<lparr>time_end := Some t1\<rparr>;
                (t2, w2) = now e w1
            in case time_start self of
                 None \<Rightarrow> Inl TypeError
               | Some s \<Rightarrow> Inr (t2 - s, self\<lparr>cached := Some (t2 - s)\<rparr>, w2))
      else (case cached self of
              None \<Rightarrow> Inl TypeError
            | Some d \<Rightarrow> Inr (d, self, w)))"

text \<open>\<^verbatim>\<open>__exit__\<close> (lines 109-111) reads the property twice, the second time for the
  message it prints. It returns \<^verbatim>\<open>None\<close>, so an exception of the block goes on.\<close>

definition exit :: "env \<Rightarrow> bench \<Rightarrow> world \<Rightarrow> exn + bench \<times> world" where
  "exit e self w =
     (case duration e self w of
        Inl ex \<Rightarrow> Inl ex
      | Inr (d, self1, w1) \<Rightarrow>
          (case duration e self1 w1 of
             Inl ex \<Rightarrow> Inl ex
           | Inr (d', self2, w2) \<Rightarrow> Inr (self2, w2)))"

section \<open>Benchmark Orchestrator: \<^verbatim>\<open>execute_bench\<close>\<close>

text \<open>
  A step of the run either goes on forever (\<open>None\<close>), raises (\<open>Some (Inl ex)\<close>) or
  returns a value and the new state. \<open>then_do\<close> runs a second step after a first one.
  Opening and closing the client (\<^verbatim>\<open>async with SQLClient(url)\<close>, lines 57-62, 117) belong
  to the external client and are taken to succeed; the \<^verbatim>\<open>url\<close> chooses the backend, which
  is the oracle \<open>backend e\<close> here.
\<close>

type_synonym 'a step = "(exn + 'a \<times> world) option"

definition then_do :: "'a step \<Rightarrow> ('a \<Rightarrow> world \<Rightarrow> 'b step) \<Rightarrow> 'b step" where
  "then_do m f =
     (case m of
        None \<Rightarrow> None
      | Some (Inl ex) \<Rightarrow> Some (Inl ex)
      | Some (Inr (x, w)) \<Rightarrow> f x w)"

text \<open>\<^verbatim>\<open>with Bench(title) as bench: body\<close>: \<^verbatim>\<open>__enter__\<close>, the body, \<^verbatim>\<open>__exit__\<close>. When
  the body raises, \<^verbatim>\<open>__exit__\<close> does not swallow the exception.\<close>

definition with_Bench ::
  "env \<Rightarrow> string \<Rightarrow> (bench \<Rightarrow> world \<Rightarrow> (exn + 'a \<times> bench \<times> world) option) \<Rightarrow> world
     \<Rightarrow> 'a step" where
  "with_Bench e ttl body w =
     (let (b, w1) = enter e (Bench ttl) w
      in case body b w1 of
           None \<Rightarrow> None
         | Some (Inl ex) \<Rightarrow> Some (Inl ex)
         | Some (Inr (x, b1, w2)) \<Rightarrow>
             (case exit e b1 w2 of
                Inl ex \<Rightarrow> Some (Inl ex)
              | Inr (b2, w3) \<Rightarrow> Some (Inr (x, w3))))"

text \<open>Python's \<^verbatim>\<open>str\<close> on integers, for the arguments of the insert statements and the
  titles of the timers.\<close>

fun str_nat :: "nat \<Rightarrow> string" where
  "str_nat n =
     (if n < 10 then [char_of (48 + n)]
      else str_nat (n div 10) @ [char_of (48 + n mod 10)])"

definition str :: "int \<Rightarrow> string" where
  "str i = (if i < 0 then CHR ''-'' # str_nat (nat (- i)) else str_nat (nat i))"

text \<open>Line 120: the leftover table is dropped; the result only chooses the message.\<close>

definition dropping_prior_table :: "env \<Rightarrow> world \<Rightarrow> unit step" where
  "dropping_prior_table e w =
     (case execute e ''drop table pony;'' None w of
        Inl ex \<Rightarrow> Some (Inl ex)
      | Inr (obj, w1) \<Rightarrow> Some (Inr ((), w1)))"

text \<open>Lines 128-131.\<close>

definition creating :: "env \<Rightarrow> world \<Rightarrow> unit step" where
  "creating e w =
     with_Bench e ''create table pony''
       (\<lambda>b w. case execute e
                 ''create table pony (id INTEGER PRIMARY KEY AUTOINCREMENT, name, age, color)''
                 None w of
                 Inl ex \<Rightarrow> Some (Inl ex)
               | Inr (obj, w1) \<Rightarrow> Some (Inr ((), b, w1))) w"

text \<open>Lines 134-137: \<^verbatim>\<open>assert (...).success is False\<close>.\<close>

definition verifying_rejected_recreate :: "env \<Rightarrow> world \<Rightarrow> unit step" where
  "verifying_rejected_recreate e w =
     with_Bench e ''create table pony again. Should fail to pass''
       (\<lambda>b w. case execute e ''create table pony (id, name, age, color)'' None w of
                 Inl ex \<Rightarrow> Some (Inl ex)
               | Inr (obj, w1) \<Rightarrow>
                   if success obj = Some False then Some (Inr ((), b, w1))
                   else Some (Inl AssertionError)) w"

text \<open>Lines 143-145: the loop of the schema check. It has no bound, so it is a partial
  function: \<open>None\<close> is the run that never leaves the loop.\<close>

partial_function (option) schema_poll :: "env \<Rightarrow> world \<Rightarrow> unit step" where
  "schema_poll e w =
     (case execute e ''SELECT * from sqlite_schema'' None w of
        Inl ex \<Rightarrow> Some (Inl ex)
      | Inr (obj, w1) \<Rightarrow>
          if count obj \<noteq> Some 2 then schema_poll e (sleep 1 w1)
          else Some (Inr ((), w1)))"

definition untouched :: "bench \<Rightarrow> 'a step \<Rightarrow> (exn + 'a \<times> bench \<times> world) option" where
  "untouched b m =
     (case m of
        None \<Rightarrow> None
      | Some (Inl ex) \<Rightarrow> Some (Inl ex)
      | Some (Inr (x, w)) \<Rightarrow> Some (Inr (x, b, w)))"

definition waiting_schema_sync :: "env \<Rightarrow> world \<Rightarrow> unit step" where
  "waiting_schema_sync e w =
     with_Bench e ''checking if schema is updated'' (\<lambda>b w. untouched b (schema_poll e w)) w"

text \<open>Lines 148-158: the insert statements are only prepared (calling a coroutine
  function does not run it); nothing is sent yet.\<close>

definition preparing ::
  "env \<Rightarrow> int \<Rightarrow> world \<Rightarrow> (string \<times> sql_value list option) list step" where
  "preparing e record_count w =
     with_Bench e
       (''preparing insertion of '' @ str record_count @ '' records by creating ''
          @ str record_count @ '' tasks with insert statement.'')
       (\<lambda>b w. Some (Inr (map (\<lambda>x. (''insert into pony(name, age, color) VALUES (?,?,?)'',
                                  Some [Text (''Pony'' @ str_nat x), Integer (int x * 1337),
                                        Text ''blue'']))
                            [0..<nat record_count], b, w))) w"

text \<open>
  Lines 162-164: \<^verbatim>\<open>asyncio.gather\<close> runs the prepared calls. The calls run on one event
  loop; the model runs them one after another, in the order of the list, which is one of
  the schedules the event loop may choose. A call that raises ends the batch.
\<close>

fun gather :: "env \<Rightarrow> (string \<times> sql_value list option) list \<Rightarrow> world \<Rightarrow> exn + world" where
  "gather e [] w = Inr w"
| "gather e (task # tasks) w =
     (case execute e (fst task) (snd task) w of
        Inl ex \<Rightarrow> Inl ex
      | Inr (obj, w1) \<Rightarrow> gather e tasks w1)"

definition loading_records ::
  "env \<Rightarrow> int \<Rightarrow> (string \<times> sql_value list option) list \<Rightarrow> world \<Rightarrow> real step" where
  "loading_records e record_count tasks w =
     with_Bench e (''Executing '' @ str record_count @ '' tasks in parallel.'')
       (\<lambda>b w. case gather e tasks w of
                 Inl ex \<Rightarrow> Some (Inl ex)
               | Inr w1 \<Rightarrow>
                   (case duration e b w1 of
                      Inl ex \<Rightarrow> Some (Inl ex)
                    | Inr (duration_insert, b1, w2) \<Rightarrow> Some (Inr (duration_insert, b1, w2)))) w"

text \<open>\<^verbatim>\<open>.records[0]["c"]\<close> (lines 169-171): \<^verbatim>\<open>None[0]\<close> raises \<^verbatim>\<open>TypeError\<close>, an empty
  list \<^verbatim>\<open>IndexError\<close>, a record without the key \<^verbatim>\<open>KeyError\<close>.\<close>

definition first_c :: "result_object \<Rightarrow> exn + sql_value" where
  "first_c obj =
     (case records obj of
        None \<Rightarrow> Inl TypeError
      | Some [] \<Rightarrow> Inl IndexError
      | Some (rec # _) \<Rightarrow>
          (case map_of rec ''c'' of None \<Rightarrow> Inl KeyError | Some v \<Rightarrow> Inr v))"

text \<open>Python's \<^verbatim>\<open>==\<close> between a value of the database and the integer
  \<^verbatim>\<open>record_count\<close>: numbers are compared by value, anything else is different.\<close>

fun py_eq :: "sql_value \<Rightarrow> int \<Rightarrow> bool" where
  "py_eq (Integer i) n = (i = n)"
| "py_eq (Float r) n = (r = of_int n)"
| "py_eq _ n = False"

text \<open>Lines 168-177: the loop of the read-back check, unbounded as well.\<close>

partial_function (option) read_poll :: "env \<Rightarrow> int \<Rightarrow> world \<Rightarrow> unit step" where
  "read_poll e record_count w =
     (case execute e ''SELECT count(0) as c from pony'' None w of
        Inl ex \<Rightarrow> Some (Inl ex)
      | Inr (obj, w1) \<Rightarrow>
          (case first_c obj of
             Inl ex \<Rightarrow> Some (Inl ex)
           | Inr records_inserted \<Rightarrow>
               if py_eq records_inserted record_count then Some (Inr ((), w1))
               else read_poll e record_count (sleep 2 w1)))"

definition waiting_read_convergence :: "env \<Rightarrow> int \<Rightarrow> world \<Rightarrow> real step" where
  "waiting_read_convergence e record_count w =
     with_Bench e ''waiting until all inserted data is available for read''
       (\<lambda>b w. case read_poll e record_count w of
                 None \<Rightarrow> None
               | Some (Inl ex) \<Rightarrow> Some (Inl ex)
               | Some (Inr (u, w1)) \<Rightarrow>
                   (case duration e b w1 of
                      Inl ex \<Rightarrow> Some (Inl ex)
                    | Inr (time_waited, b1, w2) \<Rightarrow> Some (Inr (time_waited, b1, w2)))) w"

text \<open>Lines 180-181.\<close>

definition teardown :: "env \<Rightarrow> world \<Rightarrow> unit step" where
  "teardown e w =
     with_Bench e ''cleaning up by dropping table pony''
       (\<lambda>b w. case execute e ''drop table pony;'' None w of
                 Inl ex \<Rightarrow> Some (Inl ex)
               | Inr (obj, w1) \<Rightarrow> Some (Inr ((), b, w1))) w"

text \<open>Lines 183-191: the report. The keyword arguments of \<^verbatim>\<open>dict\<close> are evaluated from
  left to right, and the last two read the clock once each. Its serialization to JSON is
  not modelled.\<close>

record report =
  duration_syncing :: real
  duration_insert :: real
  duration_total :: real
  duration_total_without_waiting :: real

definition build_report :: "env \<Rightarrow> real \<Rightarrow> real \<Rightarrow> real \<Rightarrow> world \<Rightarrow> report \<times> world" where
  "build_report e bench_start dur_insert time_waited w =
     (let (t1, w1) = now e w;
          (t2, w2) = now e w1
      in (\<lparr>duration_syncing = time_waited,
           duration_insert = dur_insert,
           duration_total = t1 - bench_start,
           duration_total_without_waiting = t2 - bench_start - time_waited\<rparr>, w2))"

text \<open>The run up to and including the load (lines 115-164), and the whole run.\<close>

definition setup_and_load :: "env \<Rightarrow> int \<Rightarrow> world \<Rightarrow> (real \<times> real) step" where
  "setup_and_load e record_count w =
     (let (bench_start, w0) = now e w
      in then_do (dropping_prior_table e w0) (\<lambda>_ w1.
         then_do (creating e w1) (\<lambda>_ w2.
         then_do (verifying_rejected_recreate e w2) (\<lambda>_ w3.
         then_do (waiting_schema_sync e w3) (\<lambda>_ w4.
         then_do (preparing e record_count w4) (\<lambda>tasks w5.
         then_do (loading_records e record_count tasks w5) (\<lambda>dur_insert w6.
         Some (Inr ((bench_start, dur_insert), w6)))))))))"

definition execute_bench :: "env \<Rightarrow> int \<Rightarrow> world \<Rightarrow> report step" where
  "execute_bench e record_count w =
     then_do (setup_and_load e record_count w) (\<lambda>p w6.
     then_do (waiting_read_convergence e record_count w6) (\<lambda>time_waited w7.
     then_do (teardown e w7) (\<lambda>_ w8.
     Some (Inr (build_report e (fst p) (snd p) time_waited w8)))))"

text \<open>The state in which a run starts.\<close>

definition fresh :: world where
  "fresh = \<lparr>ticks = 0, calls = 0, sleeps = [], trace = []\<rparr>"

section \<open>What a poll attempt observes\<close>

text \<open>
  The object that \<open>execute\<close> returns depends on the answer of the client only, apart from
  its three timing fields (lemmas \<open>execute_Inl\<close> and \<open>execute_Inr\<close> below). \<open>respond\<close> is
  that object without the timings. The value a poll attempt compares with the expected one
  is \<^verbatim>\<open>.count\<close> for the schema check (line 143) and \<^verbatim>\<open>.records[0]["c"]\<close> for the
  read-back check (lines 169-171); an attempt misses when the value differs from the
  expected one and hits when it equals it.
\<close>

definition respond :: "outcome \<Rightarrow> exn + result_object" where
  "respond answer =
     (case answer of
        Raises what \<Rightarrow> Inl (ClientError what)
      | LibsqlError explanation cd \<Rightarrow>
          ResultObject None (Some False) (Some \<lparr>message = explanation, code = cd\<rparr>)
      | Returns rs \<Rightarrow> ResultObject (Some rs) None None)"

definition schema_observed :: "outcome \<Rightarrow> exn + nat option" where
  "schema_observed answer =
     (case respond answer of Inl ex \<Rightarrow> Inl ex | Inr obj \<Rightarrow> Inr (count obj))"

definition read_observed :: "outcome \<Rightarrow> exn + sql_value" where
  "read_observed answer =
     (case respond answer of Inl ex \<Rightarrow> Inl ex | Inr obj \<Rightarrow> first_c obj)"

definition schema_miss :: "outcome \<Rightarrow> bool" where
  "schema_miss answer =
     (case schema_observed answer of Inl ex \<Rightarrow> False | Inr v \<Rightarrow> v \<noteq> Some 2)"

definition schema_hit :: "outcome \<Rightarrow> bool" where
  "schema_hit answer =
     (case schema_observed answer of Inl ex \<Rightarrow> False | Inr v \<Rightarrow> v = Some 2)"

definition read_miss :: "int \<Rightarrow> outcome \<Rightarrow> bool" where
  "read_miss record_count answer =
     (case read_observed answer of Inl ex \<Rightarrow> False | Inr v \<Rightarrow> \<not> py_eq v record_count)"


text \<open>The statements of the calls that returned, in the order they were issued.\<close>

definition statements :: "'a step \<Rightarrow> string list" where
  "statements m = (case m of Some (Inr (x, w)) \<Rightarrow> map fst (trace w) | _ \<Rightarrow> [])"

section \<open>Concrete backends and clocks\<close>

text \<open>
  \<open>steady\<close> is a backend on which a run with one record goes through without a retry:
  the leftover table does not exist, the table is created, the second create is rejected,
  the catalog shows two objects, the insert succeeds, the count is one, the table is
  dropped. Its clock advances by one second at every reading.
\<close>

definition empty_set :: result_set where
  "empty_set = \<lparr>rs_columns = [], rs_rows = [], rs_last_insert_rowid = None,
     rs_rows_affected = 0\<rparr>"

definition catalog :: "nat \<Rightarrow> result_set" where
  "catalog n = \<lparr>rs_columns = [''type'', ''name''],
     rs_rows = take n [[Text ''table'', Text ''pony''], [Text ''table'', Text ''sqlite_sequence'']],
     rs_last_insert_rowid = None, rs_rows_affected = 0\<rparr>"

definition counted :: "int \<Rightarrow> result_set" where
  "counted n = \<lparr>rs_columns = [''c''], rs_rows = [[Integer n]],
     rs_last_insert_rowid = None, rs_rows_affected = 0\<rparr>"

definition replies :: "outcome list" where
  "replies =
     [LibsqlError ''no such table: pony'' ''SQLITE_UNKNOWN'',
      Returns empty_set,
      LibsqlError ''table pony already exists'' ''SQLITE_UNKNOWN'',
      Returns (catalog 2),
      Returns (empty_set\<lparr>rs_last_insert_rowid := Some 1, rs_rows_affected := 1\<rparr>),
      Returns (counted 1),
      Returns empty_set]"

definition steady :: env where
  "steady = \<lparr>clock = (\<lambda>k. real k),
     backend = (\<lambda>k. if k < length replies then replies ! k else Raises ''connection closed'')\<rparr>"

text \<open>A clock that stands still for its first three readings.\<close>

definition stalled :: env where
  "stalled = \<lparr>clock = (\<lambda>k. if k < 3 then 5 else real k + 3), backend = backend steady\<rparr>"


definition late_schema :: env where
  "late_schema = \<lparr>clock = (\<lambda>k. real k),
     backend = (\<lambda>k. if k < 2 then Returns (catalog 1) else Returns (catalog 2))\<rparr>"



definition broken_read :: env where
  "broken_read = \<lparr>clock = (\<lambda>k. real k),
     backend = (\<lambda>k. if k = 5 then Returns (counted 0)
                     else if k = 6 then LibsqlError ''no such table: pony'' ''SQLITE_UNKNOWN''
                     else backend steady k)\<rparr>"

text \<open>A backend that accepts every statement, the second create too.\<close>

definition lenient :: env where
  "lenient = \<lparr>clock = (\<lambda>k. real k), backend = (\<lambda>k. Returns empty_set)\<rparr>"

text \<open>A result set with a repeated column name, as \<^verbatim>\<open>SELECT 1 AS a, 2 AS a\<close> gives.\<close>

definition twice :: result_set where
  "twice = \<lparr>rs_columns = [''a'', ''a''], rs_rows = [[Integer 1, Integer 2]],
     rs_last_insert_rowid = None, rs_rows_affected = 0\<rparr>"

text \<open>A result set in which the first and the third column carry the same name.\<close>

definition thrice :: result_set where
  "thrice = \<lparr>rs_columns = [''a'', ''b'', ''a''], rs_rows = [[Integer 1, Integer 2, Integer 3]],
     rs_last_insert_rowid = None, rs_rows_affected = 0\<rparr>"

section \<open>The executor\<close>

lemma execute_Inl:
  "respond (backend e (calls w)) = Inl ex \<Longrightarrow> execute e sql args w = Inl ex"
  by (auto simp: respond_def execute_def now_def Let_def split: outcome.splits sum.splits)

lemma execute_Inr:
  assumes "respond (backend e (calls w)) = Inr obj"
  shows "\<exists>obj' w'. execute e sql args w = Inr (obj', w') \<and> count obj' = count obj
     \<and> records obj' = records obj \<and> success obj' = success obj \<and> error obj' = error obj
     \<and> calls w' = Suc (calls w) \<and> sleeps w' = sleeps w
     \<and> trace w' = trace w @ [(sql, args, obj')]"
  using assms
  by (auto simp: respond_def execute_def now_def Let_def split: outcome.splits sum.splits)

lemma execute_trace:
  assumes "execute e sql args w = Inr (obj, w')"
  shows "trace w' = trace w @ [(sql, args, obj)]"
  using assms
  by (auto simp: execute_def now_def Let_def split: outcome.splits sum.splits)

text \<open>
  C2. When the client raises \<^verbatim>\<open>LibsqlError\<close>, \<open>execute\<close> returns (it does not raise) an
  object with \<open>success = False\<close>, \<open>error = {message, code}\<close> and every data field
  \<^verbatim>\<open>None\<close>; the timing attributes are not set either. Any other exception of the client
  leaves \<open>execute\<close> unhandled.
\<close>

theorem execute_backend_error_is_data:
  "(backend e (calls w) = LibsqlError explanation cd \<longrightarrow>
      (\<exists>obj w'. execute e sql args w = Inr (obj, w')
         \<and> success obj = Some False
         \<and> error obj = Some \<lparr>message = explanation, code = cd\<rparr>
         \<and> columns obj = None \<and> records obj = None \<and> last_insert_rowid obj = None
         \<and> rows_affected obj = None \<and> count obj = None
         \<and> request_duration obj = None \<and> serialization_duration obj = None
         \<and> total_duration obj = None))
   \<and> (backend e (calls w) = Raises what \<longrightarrow> execute e sql args w = Inl (ClientError what))"
  by (simp add: execute_def now_def Let_def ResultObject_def defaults_def split: prod.splits)

theorem execute_backend_error_is_data_witness:
  "(\<exists>obj w'. execute steady ''drop table pony;'' None fresh = Inr (obj, w')
         \<and> success obj = Some False
         \<and> error obj = Some \<lparr>message = ''no such table: pony'', code = ''SQLITE_UNKNOWN''\<rparr>
         \<and> columns obj = None \<and> records obj = None \<and> last_insert_rowid obj = None
         \<and> rows_affected obj = None \<and> count obj = None
         \<and> request_duration obj = None \<and> serialization_duration obj = None
         \<and> total_duration obj = None)
   \<and> execute steady ''drop table pony;'' None (fresh\<lparr>calls := 7\<rparr>)
       = Inl (ClientError ''connection closed'')"
proof -
  have a: "backend steady (calls fresh) = LibsqlError ''no such table: pony'' ''SQLITE_UNKNOWN''"
    by (simp add: steady_def fresh_def replies_def)
  have b: "backend steady (calls (fresh\<lparr>calls := 7\<rparr>)) = Raises ''connection closed''"
    by (simp add: steady_def replies_def)
  from execute_backend_error_is_data
         [where e = steady and w = fresh and explanation = "''no such table: pony''"
            and cd = "''SQLITE_UNKNOWN''" and sql = "''drop table pony;''" and args = None]
       a
  have 1: "\<exists>obj w'. execute steady ''drop table pony;'' None fresh = Inr (obj, w')
         \<and> success obj = Some False
         \<and> error obj = Some \<lparr>message = ''no such table: pony'', code = ''SQLITE_UNKNOWN''\<rparr>
         \<and> columns obj = None \<and> records obj = None \<and> last_insert_rowid obj = None
         \<and> rows_affected obj = None \<and> count obj = None
         \<and> request_duration obj = None \<and> serialization_duration obj = None
         \<and> total_duration obj = None"
    by blast
  from execute_backend_error_is_data
         [where e = steady and w = "fresh\<lparr>calls := 7\<rparr>" and what = "''connection closed''"
            and sql = "''drop table pony;''" and args = None]
       b
  have 2: "execute steady ''drop table pony;'' None (fresh\<lparr>calls := 7\<rparr>)
       = Inl (ClientError ''connection closed'')"
    by blast
  from 1 2 show ?thesis by blast
qed

text \<open>
  C5, as stated: the total duration of a successful call is the sum of its request duration
  and its serialization duration. On \<open>steady\<close>, whose clock advances by one second at
  every reading, the create statement takes 1 second of request, 1 second of serialization
  and 4 seconds in total.
\<close>

theorem total_duration_sum_counterexample:
  "(case execute steady
           ''create table pony (id INTEGER PRIMARY KEY AUTOINCREMENT, name, age, color)''
           None (fresh\<lparr>calls := 1\<rparr>) of
      Inl ex \<Rightarrow> False
    | Inr (obj, w') \<Rightarrow>
        success obj = Some True \<and> request_duration obj = Some 1
        \<and> serialization_duration obj = Some 1 \<and> total_duration obj = Some 4)"
  by (simp add: execute_def now_def Let_def ResultObject_def init_result_set_def defaults_def
      steady_def replies_def empty_set_def fresh_def)

text \<open>
  C5, amended: the total duration of a successful call is measured end to end. The call
  reads the clock five times; the total duration is the fifth reading, taken after the
  serialization duration has been stored, minus the first one, the start instant taken
  before the dispatch. The request duration is the second reading minus the first, the
  serialization duration is the fourth minus the third. So the total is not computed from
  the other two, and it need not be their sum, as the run above shows. Each duration is one
  subtraction of two readings, and the theorem names the readings; it says nothing of sums
  of durations, which in the program are sums of rounded floats.
\<close>

theorem total_duration_end_to_end:
  assumes "execute e sql args w = Inr (obj, w')" and "success obj = Some True"
  shows "request_duration obj = Some (clock e (ticks w + 1) - clock e (ticks w))
     \<and> serialization_duration obj = Some (clock e (ticks w + 3) - clock e (ticks w + 2))
     \<and> total_duration obj = Some (clock e (ticks w + 4) - clock e (ticks w))
     \<and> ticks w' = ticks w + 5"
  using assms
  by (auto simp: execute_def now_def Let_def ResultObject_def defaults_def numeral_3_eq_3
      numeral_Bit0 split: outcome.splits sum.splits)

theorem total_duration_end_to_end_witness:
  "\<exists>obj w'. execute steady ''SELECT count(0) as c from pony'' None (fresh\<lparr>calls := 5\<rparr>)
       = Inr (obj, w')
     \<and> success obj = Some True
     \<and> request_duration obj = Some 1 \<and> serialization_duration obj = Some 1
     \<and> total_duration obj = Some 4 \<and> ticks w' = 5"
proof -
  obtain obj w' where
    x: "execute steady ''SELECT count(0) as c from pony'' None (fresh\<lparr>calls := 5\<rparr>)
          = Inr (obj, w')" and s: "success obj = Some True"
    by (simp add: execute_def now_def Let_def ResultObject_def init_result_set_def defaults_def
        steady_def replies_def counted_def fresh_def)
  from total_duration_end_to_end [OF x s] x s show ?thesis
    by (simp add: steady_def fresh_def)
qed

section \<open>The scoped timer\<close>

lemma duration_cached_when_nonzero:
  assumes "duration e b w = Inr (d, b1, w1)" and "d \<noteq> 0"
  shows "duration e b1 w1 = Inr (d, b1, w1)"
  using assms
  by (auto simp: duration_def falsy_def now_def Let_def split: if_splits option.splits)

lemma duration_keeps:
  assumes "duration e b w = Inr (d, b1, w1)"
  shows "calls w1 = calls w \<and> sleeps w1 = sleeps w \<and> trace w1 = trace w
     \<and> time_start b1 = time_start b"
  using assms
  by (auto simp: duration_def falsy_def now_def Let_def split: if_splits option.splits)

lemma duration_started:
  assumes "time_start b = Some s"
  shows "\<exists>d b1 w1. duration e b w = Inr (d, b1, w1)"
  using assms
  by (auto simp: duration_def falsy_def now_def Let_def split: if_splits option.splits)

text \<open>
  C6 (the claim holds of the specification, the code departs from it). The getter tests
  \<^verbatim>\<open>not self._duration\<close>, which is true for a cached duration of zero as well as for no
  cached duration. On \<open>stalled\<close> the clock shows 5 when the timer is entered and at the
  two readings of the first read of \<^verbatim>\<open>duration\<close>, so the first read returns 0; the second
  read does not return the cached 0 but reads the clock twice again and returns 2.
\<close>

theorem duration_reread_after_zero:
  "(case enter stalled (Bench ''phase'') fresh of
      (b, w1) \<Rightarrow>
        (case duration stalled b w1 of
           Inl ex \<Rightarrow> False
         | Inr (d1, b1, w2) \<Rightarrow>
             (case duration stalled b1 w2 of
                Inl ex \<Rightarrow> False
              | Inr (d2, b2, w3) \<Rightarrow>
                  d1 = 0 \<and> d2 = 2 \<and> ticks w1 = 1 \<and> ticks w2 = 3 \<and> ticks w3 = 5
                  \<and> time_end b1 = Some 5 \<and> time_end b2 = Some 6)))"
  by (simp add: enter_def Bench_def set_duration_def duration_def falsy_def now_def
      stalled_def fresh_def Let_def)

text \<open>
  C7, as stated: reading \<^verbatim>\<open>duration\<close> before the phase has started never raises. A timer
  that was constructed and not yet entered has \<^verbatim>\<open>time_start = None\<close> (line 84), and the
  getter subtracts it from a float.
\<close>

theorem duration_before_start_counterexample:
  "duration steady (Bench ''phase'') fresh = Inl TypeError"
  by (simp add: Bench_def set_duration_def duration_def falsy_def now_def Let_def)

text \<open>
  C7, amended: once the timer has been started (entered after its construction, or reset),
  reading \<^verbatim>\<open>duration\<close> for the first time never raises, at whatever later moment; the value
  is the second of two fresh readings of the clock minus the start instant, and it is
  non-negative when the clock has not gone backwards since the start. (How close to zero it
  is depends on the real clock and is not stated.)
\<close>

theorem duration_after_start:
  assumes "b = fst (enter e (Bench ttl) v) \<or> b = fst (reset e a v)"
  shows "\<exists>d b1 w1. duration e b w = Inr (d, b1, w1)
     \<and> d = clock e (Suc (ticks w)) - clock e (ticks v)
     \<and> (clock e (ticks v) \<le> clock e (Suc (ticks w)) \<longrightarrow> 0 \<le> d)"
  using assms
  by (auto simp: enter_def reset_def Bench_def set_duration_def duration_def falsy_def now_def
      Let_def)

theorem duration_after_start_witness:
  "\<exists>d b1 w1. duration steady (fst (enter steady (Bench ''phase'') fresh))
                 (snd (enter steady (Bench ''phase'') fresh)) = Inr (d, b1, w1)
     \<and> d = 2 \<and> 0 \<le> d"
  using duration_after_start
          [where e = steady and ttl = "''phase''" and v = fresh
             and b = "fst (enter steady (Bench ''phase'') fresh)"
             and w = "snd (enter steady (Bench ''phase'') fresh)"]
  by (simp add: enter_def now_def fresh_def steady_def)

section \<open>The normalizer\<close>

lemma update_fresh: "k \<notin> fst ` set al \<Longrightarrow> AList.update k v al = al @ [(k, v)]"
  by (induction al) auto

lemma fill_record_fits:
  "x + length row \<le> length cols \<Longrightarrow>
   \<exists>r. fill_record cols x row rec = Inr r
     \<and> map_of r = map_of rec ++ map_of (rev (zip (drop x cols) row))"
proof (induction row arbitrary: x rec)
  case Nil
  then show ?case by simp
next
  case (Cons field row)
  then have lt: "x < length cols" and le: "Suc x + length row \<le> length cols" by simp_all
  from Cons.IH [OF le, of "AList.update (cols ! x) field rec"]
  obtain r where r: "fill_record cols (Suc x) row (AList.update (cols ! x) field rec) = Inr r"
    and m: "map_of r = map_of (AList.update (cols ! x) field rec)
               ++ map_of (rev (zip (drop (Suc x) cols) row))"
    by blast
  have d: "drop x cols = cols ! x # drop (Suc x) cols"
    using lt by (simp add: Cons_nth_drop_Suc)
  have "map_of r = map_of rec ++ map_of (rev (zip (drop x cols) (field # row)))"
    unfolding m d by (simp add: update_conv' map_add_upd_left fun_eq_iff map_add_def split: option.splits)
  with r lt show ?case by simp
qed

lemma fill_record_overflow:
  "row \<noteq> [] \<Longrightarrow> length cols < x + length row \<Longrightarrow> fill_record cols x row rec = Inl IndexError"
proof (induction row arbitrary: x rec)
  case Nil
  then show ?case by simp
next
  case (Cons field row)
  show ?case
  proof (cases "x < length cols")
    case True
    with Cons.prems have "row \<noteq> []" "length cols < Suc x + length row" by auto
    from Cons.IH [OF this] True show ?thesis by simp
  next
    case False
    then show ?thesis by simp
  qed
qed

lemma fill_record_distinct:
  "distinct cols \<Longrightarrow> x + length row = length cols \<Longrightarrow> fst ` set rec \<subseteq> set (take x cols) \<Longrightarrow>
   fill_record cols x row rec = Inr (rec @ zip (drop x cols) row)"
proof (induction row arbitrary: x rec)
  case Nil
  then show ?case by simp
next
  case (Cons field row)
  then have lt: "x < length cols" by simp
  have d: "drop x cols = cols ! x # drop (Suc x) cols"
    using lt by (simp add: Cons_nth_drop_Suc)
  have "cols ! x \<notin> set (take x cols)"
    using Cons.prems(1) lt by (auto simp: in_set_conv_nth nth_eq_iff_index_eq)
  then have nin: "cols ! x \<notin> fst ` set rec" using Cons.prems(3) by blast
  have u: "AList.update (cols ! x) field rec = rec @ [(cols ! x, field)]"
    by (rule update_fresh [OF nin])
  have sub: "fst ` set (rec @ [(cols ! x, field)]) \<subseteq> set (take (Suc x) cols)"
    using Cons.prems(3) lt by (auto simp: take_Suc_conv_app_nth)
  from Cons.IH [OF Cons.prems(1) _ sub] Cons.prems(2)
  have "fill_record cols (Suc x) row (rec @ [(cols ! x, field)])
          = Inr ((rec @ [(cols ! x, field)]) @ zip (drop (Suc x) cols) row)" by simp
  then show ?case using lt u d by simp
qed

lemma fill_records_fits:
  "list_all (\<lambda>row. length row \<le> length cols) rows \<Longrightarrow>
   \<exists>out. fill_records cols rows recs = Inr (recs @ out) \<and> length out = length rows
     \<and> (\<forall>i<length rows. fill_record cols 0 (rows ! i) [] = Inr (out ! i))"
proof (induction rows arbitrary: recs)
  case Nil
  then show ?case by simp
next
  case (Cons row rows)
  then have le: "0 + length row \<le> length cols" and rest: "list_all (\<lambda>row. length row \<le> length cols) rows"
    by simp_all
  from fill_record_fits [OF le, of "[]"] obtain r where r: "fill_record cols 0 row [] = Inr r" by blast
  from Cons.IH [OF rest, of "recs @ [r]"] obtain out where
    o: "fill_records cols rows (recs @ [r]) = Inr ((recs @ [r]) @ out)" "length out = length rows"
       "\<forall>i<length rows. fill_record cols 0 (rows ! i) [] = Inr (out ! i)"
    by blast
  have "fill_records cols (row # rows) recs = Inr (recs @ (r # out))" using r o(1) by simp
  moreover have "length (r # out) = length (row # rows)" using o(2) by simp
  moreover have "\<forall>i<length (row # rows). fill_record cols 0 ((row # rows) ! i) [] = Inr ((r # out) ! i)"
    using r o(3) by (auto simp: nth_Cons split: nat.splits)
  ultimately show ?case by blast
qed

lemma map_of_rev_last:
  assumes "p < length zs"
    and "\<forall>q. p < q \<and> q < length zs \<longrightarrow> fst (zs ! q) \<noteq> fst (zs ! p)"
  shows "map_of (rev zs) (fst (zs ! p)) = Some (snd (zs ! p))"
proof -
  have split: "zs = take p zs @ zs ! p # drop (Suc p) zs"
    using assms(1) by (rule id_take_nth_drop)
  have "fst (zs ! p) \<notin> fst ` set (drop (Suc p) zs)"
  proof
    assume "fst (zs ! p) \<in> fst ` set (drop (Suc p) zs)"
    then obtain j where j: "j < length (drop (Suc p) zs)"
      and eq: "fst (drop (Suc p) zs ! j) = fst (zs ! p)"
      by (auto simp: in_set_conv_nth)
    from j have "Suc p + j < length zs" by simp
    moreover from eq j have "fst (zs ! (Suc p + j)) = fst (zs ! p)" by simp
    ultimately show False using assms(2) by auto
  qed
  then have none: "map_of (rev (drop (Suc p) zs)) (fst (zs ! p)) = None"
    by (simp add: map_of_eq_None_iff)
  have "rev zs = rev (drop (Suc p) zs) @ (zs ! p) # rev (take p zs)"
    by (subst split) simp
  then show ?thesis
    using none by (cases "zs ! p") (simp add: map_add_def)
qed

text \<open>The keys of a record: the names of the positions of the row, each once, in the
  order in which they first occur (\<open>remdups\<close> keeps the last occurrence of an element,
  so between the two reversals it keeps the first). The keys and the mapping together fix
  a record.\<close>

lemma remdups_snoc:
  "remdups (xs @ [k]) = filter (\<lambda>y. y \<noteq> k) (remdups xs) @ [k]"
  by (induction xs) auto

lemma first_seen_Cons:
  "rev (remdups (rev (k # ks))) = k # filter (\<lambda>y. y \<noteq> k) (rev (remdups (rev ks)))"
  by (simp add: remdups_snoc rev_filter)

lemma fill_record_keys:
  "x + length row \<le> length cols \<Longrightarrow>
   \<exists>r. fill_record cols x row rec = Inr r
     \<and> map fst r = map fst rec
          @ filter (\<lambda>k. k \<notin> set (map fst rec))
              (rev (remdups (rev (take (length row) (drop x cols)))))"
proof (induction row arbitrary: x rec)
  case Nil
  then show ?case by simp
next
  case (Cons field row)
  then have lt: "x < length cols" and le: "Suc x + length row \<le> length cols" by simp_all
  let ?c = "cols ! x" and ?seen = "rev (remdups (rev (take (length row) (drop (Suc x) cols))))"
  from Cons.IH [OF le, of "AList.update ?c field rec"]
  obtain r where r: "fill_record cols (Suc x) row (AList.update ?c field rec) = Inr r"
    and k: "map fst r = map fst (AList.update ?c field rec)
              @ filter (\<lambda>k. k \<notin> set (map fst (AList.update ?c field rec))) ?seen"
    by blast
  have d: "drop x cols = ?c # drop (Suc x) cols"
    using lt by (simp add: Cons_nth_drop_Suc)
  have t: "rev (remdups (rev (take (length (field # row)) (drop x cols))))
             = ?c # filter (\<lambda>y. y \<noteq> ?c) ?seen"
    unfolding d by (simp only: length_Cons take_Suc_Cons first_seen_Cons)
  have "map fst r = map fst rec @ filter (\<lambda>k. k \<notin> set (map fst rec)) (?c # filter (\<lambda>y. y \<noteq> ?c) ?seen)"
  proof (cases "?c \<in> set (map fst rec)")
    case True
    then have "map fst r = map fst rec @ filter (\<lambda>k. k \<notin> set (map fst rec)) ?seen"
      using k by (simp add: update_keys)
    moreover have "filter (\<lambda>k. k \<notin> set (map fst rec)) ?seen
        = filter (\<lambda>k. k \<notin> set (map fst rec)) (filter (\<lambda>y. y \<noteq> ?c) ?seen)"
      using True by (auto intro!: filter_cong)
    ultimately show ?thesis using True by simp
  next
    case False
    then have "map fst r = (map fst rec @ [?c])
        @ filter (\<lambda>k. k \<notin> set (map fst rec @ [?c])) ?seen"
      using k by (simp add: update_keys)
    moreover have "filter (\<lambda>k. k \<notin> set (map fst rec @ [?c])) ?seen
        = filter (\<lambda>k. k \<notin> set (map fst rec)) (filter (\<lambda>y. y \<noteq> ?c) ?seen)"
      by (auto intro!: filter_cong)
    ultimately show ?thesis using False by simp
  qed
  with r lt t show ?case by simp
qed

lemma fill_records_length:
  "fill_records cols rows recs = Inr out \<Longrightarrow> length out = length recs + length rows"
  by (induction rows arbitrary: recs) (auto split: sum.splits)

lemma record_determined:
  "map fst r = map fst r' \<Longrightarrow> distinct (map fst r) \<Longrightarrow> map_of r = map_of r' \<Longrightarrow> r = r'"
proof (induction r arbitrary: r')
  case Nil
  then show ?case by simp
next
  case (Cons p r)
  from Cons.prems(1) obtain p' t where r': "r' = p' # t" and f: "fst p' = fst p"
    and keys: "map fst r = map fst t"
    by (cases r') auto
  have "map_of (p # r) (fst p) = map_of r' (fst p)" by (rule fun_cong [OF Cons.prems(3)])
  with r' f have s: "snd p = snd p'" by (cases p, cases p') simp
  with f have pp: "p = p'" by (simp add: prod_eq_iff)
  have "map_of r k = map_of t k" for k
  proof (cases "k = fst p")
    case True
    with Cons.prems(2) have "k \<notin> fst ` set r" by simp
    moreover from this keys have "k \<notin> fst ` set t" by (metis image_set)
    ultimately have "map_of r k = None" "map_of t k = None"
      by (simp_all add: map_of_eq_None_iff)
    then show ?thesis by simp
  next
    case False
    have "map_of (p # r) k = map_of r' k" by (rule fun_cong [OF Cons.prems(3)])
    with False r' f show ?thesis by (cases p, cases p') simp
  qed
  then have "map_of r = map_of t" by (rule ext)
  from Cons.IH [OF keys _ this] Cons.prems(2) have "r = t" by simp
  with pp r' show ?case by simp
qed

text \<open>
  C8, as stated: every record maps each column name to the row's value at the same
  position. With the column name \<^verbatim>\<open>a\<close> at positions 0 and 1 and the row \<^verbatim>\<open>(1, 2)\<close>, the
  second assignment to the key \<^verbatim>\<open>a\<close> overwrites the first: the record is \<^verbatim>\<open>{"a": 2}\<close>,
  and the value 1 of position 0 is not in it.
\<close>

theorem normalizer_repeated_column_counterexample:
  "(case ResultObject (Some twice) None None of
      Inl ex \<Rightarrow> False
    | Inr obj \<Rightarrow>
        records obj = Some [[(''a'', Integer 2)]]
        \<and> map_of [(''a'', Integer 2)] (rs_columns twice ! 0) \<noteq> Some (hd (rs_rows twice) ! 0))"
  by (simp add: ResultObject_def init_result_set_def defaults_def twice_def)

text \<open>
  C8, amended: for every result set whose rows are no longer than its column list, the
  normalizer returns a successful object with one record per row, in the order of the rows,
  and \<open>count\<close> equal to the length of the records sequence. The keys of a record are the
  column names of the positions of its row, each name once, in the order of their first
  occurrence. A record maps the column name of a position to the value at that position
  unless a later position of the row carries the same name: the last value wins, and the
  key keeps its first place. When the column names are distinct and the row is as long as
  the column list, the record is the column list zipped with the row, in column order.
\<close>

theorem normalizer_records:
  assumes "list_all (\<lambda>row. length row \<le> length (rs_columns rs)) (rs_rows rs)"
  shows "\<exists>obj recs. ResultObject (Some rs) None None = Inr obj
     \<and> success obj = Some True \<and> error obj = None \<and> columns obj = Some (rs_columns rs)
     \<and> records obj = Some recs \<and> count obj = Some (length recs)
     \<and> length recs = length (rs_rows rs)
     \<and> (\<forall>i<length recs.
          map fst (recs ! i)
            = rev (remdups (rev (take (length (rs_rows rs ! i)) (rs_columns rs))))
          \<and> map_of (recs ! i) = map_of (rev (zip (rs_columns rs) (rs_rows rs ! i)))
          \<and> (\<forall>p<length (rs_rows rs ! i).
             (\<forall>q. p < q \<and> q < length (rs_rows rs ! i) \<longrightarrow> rs_columns rs ! q \<noteq> rs_columns rs ! p)
             \<longrightarrow> map_of (recs ! i) (rs_columns rs ! p) = Some (rs_rows rs ! i ! p))
          \<and> (distinct (rs_columns rs) \<and> length (rs_rows rs ! i) = length (rs_columns rs)
               \<longrightarrow> recs ! i = zip (rs_columns rs) (rs_rows rs ! i)))"
proof -
  let ?cols = "rs_columns rs" and ?rows = "rs_rows rs"
  from fill_records_fits [OF assms, of "[]"] obtain recs where
    f: "fill_records ?cols ?rows [] = Inr recs" and len: "length recs = length ?rows"
    and each: "\<forall>i<length ?rows. fill_record ?cols 0 (?rows ! i) [] = Inr (recs ! i)"
    by auto
  let ?obj = "defaults\<lparr>columns := Some ?cols, records := Some recs,
             last_insert_rowid := rs_last_insert_rowid rs,
             rows_affected := Some (rs_rows_affected rs),
             count := Some (length recs), success := Some True\<rparr>"
  have obj: "ResultObject (Some rs) None None = Inr ?obj"
    using f by (simp add: ResultObject_def init_result_set_def)
  have props: "success ?obj = Some True" "error ?obj = None" "columns ?obj = Some ?cols"
    "records ?obj = Some recs" "count ?obj = Some (length recs)"
    by (simp_all add: defaults_def)
  have rows: "map fst (recs ! i) = rev (remdups (rev (take (length (?rows ! i)) ?cols)))
          \<and> map_of (recs ! i) = map_of (rev (zip ?cols (?rows ! i)))
          \<and> (\<forall>p<length (?rows ! i).
             (\<forall>q. p < q \<and> q < length (?rows ! i) \<longrightarrow> ?cols ! q \<noteq> ?cols ! p)
             \<longrightarrow> map_of (recs ! i) (?cols ! p) = Some (?rows ! i ! p))
          \<and> (distinct ?cols \<and> length (?rows ! i) = length ?cols
               \<longrightarrow> recs ! i = zip ?cols (?rows ! i))" if i: "i < length recs" for i
  proof -
    let ?row = "?rows ! i"
    from i len have il: "i < length ?rows" by simp
    then have "?row \<in> set ?rows" by simp
    with assms have le: "length ?row \<le> length ?cols" by (simp add: list_all_iff)
    from each il have r: "fill_record ?cols 0 ?row [] = Inr (recs ! i)" by simp
    from fill_record_fits [of 0 ?row ?cols "[]"] le r
    have m: "map_of (recs ! i) = map_of (rev (zip ?cols ?row))" by auto
    from fill_record_keys [of 0 ?row ?cols "[]"] le r
    have k: "map fst (recs ! i) = rev (remdups (rev (take (length ?row) ?cols)))" by auto
    have pos: "map_of (recs ! i) (?cols ! p) = Some (?row ! p)"
      if p: "p < length ?row"
        and last: "\<forall>q. p < q \<and> q < length ?row \<longrightarrow> ?cols ! q \<noteq> ?cols ! p" for p
    proof -
      have lz: "length (zip ?cols ?row) = length ?row" using le by simp
      have a: "p < length (zip ?cols ?row)" using p lz by simp
      have b: "\<forall>q. p < q \<and> q < length (zip ?cols ?row)
                 \<longrightarrow> fst (zip ?cols ?row ! q) \<noteq> fst (zip ?cols ?row ! p)"
        using last p le lz by auto
      from map_of_rev_last [OF a b] p le show ?thesis unfolding m by simp
    qed
    have zipped: "recs ! i = zip ?cols ?row" if "distinct ?cols" "length ?row = length ?cols"
      using fill_record_distinct [of ?cols 0 ?row "[]"] that r by simp
    from k m pos zipped show ?thesis by blast
  qed
  from obj props len rows show ?thesis by blast
qed

theorem normalizer_records_witness:
  "(\<exists>obj recs. ResultObject (Some (catalog 2)) None None = Inr obj
     \<and> success obj = Some True \<and> records obj = Some recs \<and> count obj = Some 2
     \<and> recs ! 0 = [(''type'', Text ''table''), (''name'', Text ''pony'')]
     \<and> recs ! 1 = [(''type'', Text ''table''), (''name'', Text ''sqlite_sequence'')])
   \<and> (\<exists>obj recs. ResultObject (Some thrice) None None = Inr obj
     \<and> records obj = Some recs \<and> count obj = Some 1
     \<and> recs ! 0 = [(''a'', Integer 3), (''b'', Integer 2)])"
proof -
  have h: "list_all (\<lambda>row. length row \<le> length (rs_columns (catalog 2))) (rs_rows (catalog 2))"
    by (simp add: catalog_def)
  from normalizer_records [OF h] obtain obj recs where
    o: "ResultObject (Some (catalog 2)) None None = Inr obj" "success obj = Some True"
       "records obj = Some recs" "count obj = Some (length recs)"
       "length recs = length (rs_rows (catalog 2))"
    and z: "\<forall>i<length recs. distinct (rs_columns (catalog 2))
               \<and> length (rs_rows (catalog 2) ! i) = length (rs_columns (catalog 2))
               \<longrightarrow> recs ! i = zip (rs_columns (catalog 2)) (rs_rows (catalog 2) ! i)"
    by blast
  from o(5) have l: "length recs = 2" by (simp add: catalog_def)
  from z l have "recs ! 0 = zip (rs_columns (catalog 2)) (rs_rows (catalog 2) ! 0)"
    by (simp add: catalog_def)
  then have r0: "recs ! 0 = [(''type'', Text ''table''), (''name'', Text ''pony'')]"
    by (simp add: catalog_def)
  from z l have "recs ! 1 = zip (rs_columns (catalog 2)) (rs_rows (catalog 2) ! 1)"
    by (simp add: catalog_def)
  then have r1: "recs ! 1 = [(''type'', Text ''table''), (''name'', Text ''sqlite_sequence'')]"
    by (simp add: catalog_def)
  from o l r0 r1 have first: "\<exists>obj recs. ResultObject (Some (catalog 2)) None None = Inr obj
     \<and> success obj = Some True \<and> records obj = Some recs \<and> count obj = Some 2
     \<and> recs ! 0 = [(''type'', Text ''table''), (''name'', Text ''pony'')]
     \<and> recs ! 1 = [(''type'', Text ''table''), (''name'', Text ''sqlite_sequence'')]"
    by simp
  have g: "list_all (\<lambda>row. length row \<le> length (rs_columns thrice)) (rs_rows thrice)"
    by (simp add: thrice_def)
  from normalizer_records [OF g] obtain obj' recs' where
    p: "ResultObject (Some thrice) None None = Inr obj'"
       "records obj' = Some recs'" "count obj' = Some (length recs')"
       "length recs' = length (rs_rows thrice)"
    and q: "\<forall>i<length recs'.
          map fst (recs' ! i)
            = rev (remdups (rev (take (length (rs_rows thrice ! i)) (rs_columns thrice))))
          \<and> map_of (recs' ! i) = map_of (rev (zip (rs_columns thrice) (rs_rows thrice ! i)))"
    by blast
  from p(4) have l': "length recs' = 1" by (simp add: thrice_def)
  from q l' have k: "map fst (recs' ! 0) = [''a'', ''b'']"
    and m: "map_of (recs' ! 0) = map_of [(''a'', Integer 3), (''b'', Integer 2), (''a'', Integer 1)]"
    by (simp_all add: thrice_def)
  have "recs' ! 0 = [(''a'', Integer 3), (''b'', Integer 2)]"
  proof (rule record_determined)
    show "map fst (recs' ! 0) = map fst [(''a'', Integer 3), (''b'', Integer 2)]"
      using k by simp
    show "distinct (map fst (recs' ! 0))" using k by simp
    show "map_of (recs' ! 0) = map_of [(''a'', Integer 3), (''b'', Integer 2)]"
      unfolding m by (rule ext) simp
  qed
  with p l' have second: "\<exists>obj recs. ResultObject (Some thrice) None None = Inr obj
     \<and> records obj = Some recs \<and> count obj = Some 1
     \<and> recs ! 0 = [(''a'', Integer 3), (''b'', Integer 2)]"
    by simp
  from first second show ?thesis by blast
qed

section \<open>The poll loops\<close>

lemma schema_poll_abort:
  assumes "schema_observed (backend e (calls w)) = Inl ex"
  shows "schema_poll e w = Some (Inl ex)"
proof -
  from assms have "respond (backend e (calls w)) = Inl ex"
    by (simp add: schema_observed_def split: sum.splits)
  then have "execute e ''SELECT * from sqlite_schema'' None w = Inl ex"
    by (rule execute_Inl)
  then show ?thesis by (subst schema_poll.simps) simp
qed

lemma schema_poll_miss:
  assumes "schema_miss (backend e (calls w))"
  shows "\<exists>obj v. execute e ''SELECT * from sqlite_schema'' None w = Inr (obj, v)
     \<and> count obj \<noteq> Some 2 \<and> schema_poll e w = schema_poll e (sleep 1 v)
     \<and> calls (sleep 1 v) = Suc (calls w) \<and> sleeps (sleep 1 v) = sleeps w @ [1]"
proof -
  from assms obtain obj where r: "respond (backend e (calls w)) = Inr obj" and c: "count obj \<noteq> Some 2"
    by (auto simp: schema_miss_def schema_observed_def split: sum.splits)
  from execute_Inr [OF r, of "''SELECT * from sqlite_schema''" None]
  obtain obj' w' where x: "execute e ''SELECT * from sqlite_schema'' None w = Inr (obj', w')"
    and p: "count obj' = count obj" "calls w' = Suc (calls w)" "sleeps w' = sleeps w"
    by blast
  have "schema_poll e w = schema_poll e (sleep 1 w')"
    using x c p by (subst schema_poll.simps) simp
  moreover have "calls (sleep 1 w') = Suc (calls w)" "sleeps (sleep 1 w') = sleeps w @ [1]"
    using p by (simp_all add: sleep_def)
  ultimately show ?thesis using x c p by auto
qed

lemma schema_poll_hit:
  assumes "schema_hit (backend e (calls w))"
  shows "\<exists>obj w'. schema_poll e w = Some (Inr ((), w')) \<and> calls w' = Suc (calls w)
     \<and> sleeps w' = sleeps w \<and> trace w' = trace w @ [(''SELECT * from sqlite_schema'', None, obj)]
     \<and> count obj = Some 2"
proof -
  from assms obtain obj where r: "respond (backend e (calls w)) = Inr obj" and c: "count obj = Some 2"
    by (auto simp: schema_hit_def schema_observed_def split: sum.splits)
  from execute_Inr [OF r, of "''SELECT * from sqlite_schema''" None]
  obtain obj' w' where x: "execute e ''SELECT * from sqlite_schema'' None w = Inr (obj', w')"
    and p: "count obj' = count obj" "calls w' = Suc (calls w)" "sleeps w' = sleeps w"
      "trace w' = trace w @ [(''SELECT * from sqlite_schema'', None, obj')]"
    by blast
  have "schema_poll e w = Some (Inr ((), w'))"
    using x c p by (subst schema_poll.simps) simp
  with p c show ?thesis by auto
qed

lemma schema_poll_returns:
  "(\<forall>k<n. schema_miss (backend e (calls w + k))) \<Longrightarrow> schema_hit (backend e (calls w + n)) \<Longrightarrow>
   \<exists>obj w'. schema_poll e w = Some (Inr ((), w')) \<and> calls w' = calls w + Suc n
     \<and> sleeps w' = sleeps w @ replicate n 1
     \<and> trace w' \<noteq> [] \<and> last (trace w') = (''SELECT * from sqlite_schema'', None, obj)
     \<and> count obj = Some 2"
proof (induction n arbitrary: w)
  case 0
  then show ?case using schema_poll_hit [of e w] by auto
next
  case (Suc n)
  from Suc.prems(1) have "schema_miss (backend e (calls w))" by (metis add.right_neutral zero_less_Suc)
  from schema_poll_miss [OF this] obtain w1 where
    w1: "schema_poll e w = schema_poll e w1" "calls w1 = Suc (calls w)" "sleeps w1 = sleeps w @ [1]"
    by blast
  have a: "\<forall>k<n. schema_miss (backend e (calls w1 + k))"
    using Suc.prems(1) w1(2) by (metis Suc_less_eq add_Suc_shift)
  have b: "schema_hit (backend e (calls w1 + n))"
    using Suc.prems(2) w1(2) by simp
  from Suc.IH [OF a b] w1 show ?case
    by (auto simp: replicate_append_same)
qed

lemma schema_poll_aborts:
  "(\<forall>k<n. schema_miss (backend e (calls w + k))) \<Longrightarrow>
   schema_observed (backend e (calls w + n)) = Inl ex \<Longrightarrow> schema_poll e w = Some (Inl ex)"
proof (induction n arbitrary: w)
  case 0
  then show ?case using schema_poll_abort [of e w ex] by simp
next
  case (Suc n)
  from Suc.prems(1) have "schema_miss (backend e (calls w))" by (metis add.right_neutral zero_less_Suc)
  from schema_poll_miss [OF this] obtain w1 where
    w1: "schema_poll e w = schema_poll e w1" "calls w1 = Suc (calls w)"
    by blast
  have a: "\<forall>k<n. schema_miss (backend e (calls w1 + k))"
    using Suc.prems(1) w1(2) by (metis Suc_less_eq add_Suc_shift)
  have b: "schema_observed (backend e (calls w1 + n)) = Inl ex"
    using Suc.prems(2) w1(2) by simp
  from Suc.IH [OF a b] w1 show ?case by simp
qed

lemma schema_poll_step:
  assumes IH: "\<And>e w y. f e w = Some y \<Longrightarrow> \<exists>k. \<not> schema_miss (backend e (calls w + k))"
    and run: "(case execute e ''SELECT * from sqlite_schema'' None w of
                 Inl ex \<Rightarrow> Some (Inl ex)
               | Inr (obj, w1) \<Rightarrow>
                   if count obj \<noteq> Some 2 then f e (sleep 1 w1)
                   else Some (Inr ((), w1))) = Some y"
  shows "\<exists>k. \<not> schema_miss (backend e (calls w + k))"
proof (rule ccontr)
  assume "\<not> ?thesis"
  then have all: "\<forall>k. schema_miss (backend e (calls w + k))" by simp
  then have "schema_miss (backend e (calls w))" by (metis add.right_neutral)
  then obtain obj where r: "respond (backend e (calls w)) = Inr obj" and c: "count obj \<noteq> Some 2"
    by (auto simp: schema_miss_def schema_observed_def split: sum.splits)
  from execute_Inr [OF r, of "''SELECT * from sqlite_schema''" None]
  obtain obj' w' where x: "execute e ''SELECT * from sqlite_schema'' None w = Inr (obj', w')"
    and p: "count obj' = count obj" "calls w' = Suc (calls w)"
    by blast
  from run x c p have "f e (sleep 1 w') = Some y" by simp
  from IH [OF this] obtain k where "\<not> schema_miss (backend e (calls (sleep 1 w') + k))" by blast
  then have "\<not> schema_miss (backend e (calls w + Suc k))" using p by (simp add: sleep_def)
  with all show False by blast
qed

lemma schema_poll_forever:
  assumes "\<forall>k. schema_miss (backend e (calls w + k))"
  shows "schema_poll e w = None"
proof (rule ccontr)
  assume "schema_poll e w \<noteq> None"
  then obtain y where y: "schema_poll e w = Some y" by auto
  have "\<exists>k. \<not> schema_miss (backend e (calls w + k))"
    by (rule schema_poll.raw_induct
          [where P = "\<lambda>e w y. \<exists>k. \<not> schema_miss (backend e (calls w + k))", OF _ y])
       (rule schema_poll_step)
  with assms show False by blast
qed


lemma read_poll_abort:
  assumes "read_observed (backend e (calls w)) = Inl ex"
  shows "read_poll e rc w = Some (Inl ex)"
proof (cases "respond (backend e (calls w))")
  case (Inl ex')
  with assms have "ex' = ex" by (simp add: read_observed_def)
  with Inl have "execute e ''SELECT count(0) as c from pony'' None w = Inl ex"
    by (simp add: execute_Inl)
  then show ?thesis by (subst read_poll.simps) simp
next
  case (Inr obj)
  with assms have f: "first_c obj = Inl ex" by (simp add: read_observed_def)
  from execute_Inr [OF Inr, of "''SELECT count(0) as c from pony''" None]
  obtain obj' w' where x: "execute e ''SELECT count(0) as c from pony'' None w = Inr (obj', w')"
    and p: "records obj' = records obj"
    by blast
  from p f have "first_c obj' = Inl ex" by (simp add: first_c_def)
  with x show ?thesis by (subst read_poll.simps) simp
qed

lemma read_poll_miss:
  assumes "read_miss rc (backend e (calls w))"
  shows "\<exists>obj x v. execute e ''SELECT count(0) as c from pony'' None w = Inr (obj, v)
     \<and> first_c obj = Inr x \<and> \<not> py_eq x rc
     \<and> read_poll e rc w = read_poll e rc (sleep 2 v)
     \<and> calls (sleep 2 v) = Suc (calls w) \<and> sleeps (sleep 2 v) = sleeps w @ [2]"
proof -
  from assms obtain obj v where r: "respond (backend e (calls w)) = Inr obj"
    and f: "first_c obj = Inr v" and c: "\<not> py_eq v rc"
    by (auto simp: read_miss_def read_observed_def split: sum.splits)
  from execute_Inr [OF r, of "''SELECT count(0) as c from pony''" None]
  obtain obj' w' where x: "execute e ''SELECT count(0) as c from pony'' None w = Inr (obj', w')"
    and p: "records obj' = records obj" "calls w' = Suc (calls w)" "sleeps w' = sleeps w"
    by blast
  from p f have f': "first_c obj' = Inr v" by (simp add: first_c_def)
  have "read_poll e rc w = read_poll e rc (sleep 2 w')"
    using x c f' by (subst read_poll.simps) simp
  moreover have "calls (sleep 2 w') = Suc (calls w)" "sleeps (sleep 2 w') = sleeps w @ [2]"
    using p by (simp_all add: sleep_def)
  ultimately show ?thesis using x c f' by auto
qed



lemma read_poll_aborts:
  "(\<forall>k<n. read_miss rc (backend e (calls w + k))) \<Longrightarrow>
   read_observed (backend e (calls w + n)) = Inl ex \<Longrightarrow> read_poll e rc w = Some (Inl ex)"
proof (induction n arbitrary: w)
  case 0
  then show ?case using read_poll_abort [of e w ex rc] by simp
next
  case (Suc n)
  from Suc.prems(1) have "read_miss rc (backend e (calls w))" by (metis add.right_neutral zero_less_Suc)
  from read_poll_miss [OF this] obtain w1 where
    w1: "read_poll e rc w = read_poll e rc w1" "calls w1 = Suc (calls w)"
    by blast
  have a: "\<forall>k<n. read_miss rc (backend e (calls w1 + k))"
    using Suc.prems(1) w1(2) by (metis Suc_less_eq add_Suc_shift)
  have b: "read_observed (backend e (calls w1 + n)) = Inl ex"
    using Suc.prems(2) w1(2) by simp
  from Suc.IH [OF a b] w1 show ?case by simp
qed



text \<open>The first attempt that does not miss decides how a poll ends.\<close>

lemma first_not_missing:
  assumes "\<exists>k. \<not> P (k::nat)"
  shows "\<exists>n. \<not> P n \<and> (\<forall>k<n. P k)"
  using assms exists_least_iff [of "\<lambda>k. \<not> P k"] by simp

lemma schema_poll_returned:
  assumes "schema_poll e w = Some (Inr ((), w'))"
  shows "\<exists>n obj. (\<forall>k<n. schema_miss (backend e (calls w + k)))
     \<and> schema_hit (backend e (calls w + n))
     \<and> calls w' = calls w + Suc n \<and> sleeps w' = sleeps w @ replicate n 1
     \<and> trace w' \<noteq> [] \<and> last (trace w') = (''SELECT * from sqlite_schema'', None, obj)
     \<and> count obj = Some 2"
proof -
  have "\<exists>k. \<not> schema_miss (backend e (calls w + k))"
    using schema_poll_forever [of e w] assms by auto
  from first_not_missing [OF this] obtain n where
    n: "\<not> schema_miss (backend e (calls w + n))" and before: "\<forall>k<n. schema_miss (backend e (calls w + k))"
    by blast
  show ?thesis
  proof (cases "schema_observed (backend e (calls w + n))")
    case (Inl ex)
    from schema_poll_aborts [OF before Inl] assms show ?thesis by simp
  next
    case (Inr v)
    with n have hit: "schema_hit (backend e (calls w + n))"
      by (simp add: schema_miss_def schema_hit_def)
    from schema_poll_returns [OF before hit] assms before hit show ?thesis by auto
  qed
qed



text \<open>A hit of the schema check is an answer with exactly two rows, and the loop returns
  the state in which \<open>execute\<close> has returned for that answer.\<close>

lemma schema_hit_Returns:
  assumes "schema_hit answer"
  shows "\<exists>rs. answer = Returns rs \<and> length (rs_rows rs) = 2"
proof (cases answer)
  case (Returns rs)
  with assms obtain recs where "fill_records (rs_columns rs) (rs_rows rs) [] = Inr recs"
    and "length recs = 2"
    by (auto simp: schema_hit_def schema_observed_def respond_def ResultObject_def
        init_result_set_def defaults_def split: sum.splits)
  with fill_records_length [of "rs_columns rs" "rs_rows rs" "[]" recs] Returns
  show ?thesis by simp
next
  case (LibsqlError explanation cd)
  with assms show ?thesis
    by (simp add: schema_hit_def schema_observed_def respond_def ResultObject_def defaults_def)
next
  case (Raises what)
  with assms show ?thesis
    by (simp add: schema_hit_def schema_observed_def respond_def)
qed

lemma schema_poll_last_call:
  "(\<forall>k<n. schema_miss (backend e (calls w + k))) \<Longrightarrow> schema_hit (backend e (calls w + n)) \<Longrightarrow>
   \<exists>obj v v'. calls v = calls w + n
     \<and> execute e ''SELECT * from sqlite_schema'' None v = Inr (obj, v')
     \<and> count obj = Some 2 \<and> schema_poll e w = Some (Inr ((), v'))"
proof (induction n arbitrary: w)
  case 0
  then obtain obj where r: "respond (backend e (calls w)) = Inr obj" and c: "count obj = Some 2"
    by (auto simp: schema_hit_def schema_observed_def split: sum.splits)
  from execute_Inr [OF r, of "''SELECT * from sqlite_schema''" None]
  obtain obj' w' where x: "execute e ''SELECT * from sqlite_schema'' None w = Inr (obj', w')"
    and p: "count obj' = count obj"
    by blast
  have "schema_poll e w = Some (Inr ((), w'))"
    using x c p by (subst schema_poll.simps) simp
  with x c p show ?case by auto
next
  case (Suc n)
  from Suc.prems(1) have "schema_miss (backend e (calls w))" by (metis add.right_neutral zero_less_Suc)
  from schema_poll_miss [OF this] obtain u where
    u: "schema_poll e w = schema_poll e (sleep 1 u)" "calls (sleep 1 u) = Suc (calls w)"
    by blast
  have a: "\<forall>k<n. schema_miss (backend e (calls (sleep 1 u) + k))"
    using Suc.prems(1) u(2) by (metis Suc_less_eq add_Suc_shift)
  have b: "schema_hit (backend e (calls (sleep 1 u) + n))"
    using Suc.prems(2) u(2) by simp
  from Suc.IH [OF a b] u show ?case by auto
qed

section \<open>The timer around a phase\<close>

lemma enter_keeps:
  "calls (snd (enter e b w)) = calls w \<and> sleeps (snd (enter e b w)) = sleeps w
     \<and> trace (snd (enter e b w)) = trace w
     \<and> time_start (fst (enter e b w)) = Some (clock e (ticks w))"
  by (simp add: enter_def now_def)

lemma exit_keeps:
  assumes "time_start b = Some s"
  shows "\<exists>b1 w1. exit e b w = Inr (b1, w1) \<and> calls w1 = calls w \<and> sleeps w1 = sleeps w
     \<and> trace w1 = trace w"
proof -
  from duration_started [OF assms, of e w] obtain d b1 w1 where
    d1: "duration e b w = Inr (d, b1, w1)" by blast
  from duration_keeps [OF d1] assms have k1: "calls w1 = calls w" "sleeps w1 = sleeps w"
    "trace w1 = trace w" "time_start b1 = Some s" by simp_all
  from duration_started [OF k1(4), of e w1] obtain d' b2 w2 where
    d2: "duration e b1 w1 = Inr (d', b2, w2)" by blast
  from duration_keeps [OF d2] k1 have "calls w2 = calls w" "sleeps w2 = sleeps w"
    "trace w2 = trace w" by simp_all
  with d1 d2 show ?thesis by (simp add: exit_def)
qed

lemma with_Bench_raises:
  assumes "body (fst (enter e (Bench ttl) w)) (snd (enter e (Bench ttl) w)) = Some (Inl ex)"
  shows "with_Bench e ttl body w = Some (Inl ex)"
  using assms by (cases "enter e (Bench ttl) w") (simp add: with_Bench_def)

lemma with_Bench_forever:
  assumes "body (fst (enter e (Bench ttl) w)) (snd (enter e (Bench ttl) w)) = None"
  shows "with_Bench e ttl body w = None"
  using assms by (cases "enter e (Bench ttl) w") (simp add: with_Bench_def)

lemma with_Bench_returned:
  assumes "with_Bench e ttl body w = Some (Inr (x, w'))"
  shows "\<exists>b1 w1. body (fst (enter e (Bench ttl) w)) (snd (enter e (Bench ttl) w))
                   = Some (Inr (x, b1, w1))
     \<and> calls w' = calls w1 \<and> sleeps w' = sleeps w1 \<and> trace w' = trace w1"
proof -
  from assms obtain b1 w1 where
    b: "body (fst (enter e (Bench ttl) w)) (snd (enter e (Bench ttl) w)) = Some (Inr (x, b1, w1))"
    and x: "\<exists>b2. exit e b1 w1 = Inr (b2, w')"
    by (cases "enter e (Bench ttl) w")
       (auto simp: with_Bench_def split: option.splits sum.splits)
  from x obtain b2 d b' v where "duration e b1 w1 = Inr (d, b', v)"
    and "\<exists>d'. duration e b' v = Inr (d', b2, w')"
    by (auto simp: exit_def split: sum.splits)
  then have "calls w' = calls w1 \<and> sleeps w' = sleeps w1 \<and> trace w' = trace w1"
    using duration_keeps by (metis (no_types))
  with b show ?thesis by blast
qed

text \<open>
  C9. Whenever the schema-sync phase completes, the last call made to the client is a
  catalog query of the phase; the backend has answered it with a result set of exactly two
  rows (every earlier attempt of the phase has missed); the object that \<open>execute\<close>
  returned for this answer has \<open>count = 2\<close>, and it is the last entry of the trace.
\<close>

theorem schema_sync_completes_with_two:
  assumes "waiting_schema_sync e w = Some (Inr ((), w'))"
  shows "\<exists>n rs obj v v'.
       (\<forall>k<n. schema_miss (backend e (calls w + k)))
     \<and> backend e (calls w + n) = Returns rs \<and> length (rs_rows rs) = 2
     \<and> calls w' = calls w + Suc n
     \<and> calls v = calls w + n
     \<and> execute e ''SELECT * from sqlite_schema'' None v = Inr (obj, v')
     \<and> count obj = Some 2
     \<and> trace w' = trace v' \<and> trace w' \<noteq> []
     \<and> last (trace w') = (''SELECT * from sqlite_schema'', None, obj)"
proof -
  let ?b = "fst (enter e (Bench ''checking if schema is updated'') w)"
  let ?w1 = "snd (enter e (Bench ''checking if schema is updated'') w)"
  from with_Bench_returned [OF assms [unfolded waiting_schema_sync_def]]
  obtain b1 w1 where
    u: "untouched ?b (schema_poll e ?w1) = Some (Inr ((), b1, w1))"
    and t: "trace w' = trace w1" and c: "calls w' = calls w1"
    by blast
  from u have p: "schema_poll e ?w1 = Some (Inr ((), w1))"
    by (auto simp: untouched_def split: option.splits sum.splits)
  have cw: "calls ?w1 = calls w" by (simp add: enter_keeps)
  from schema_poll_returned [OF p] obtain n where
    miss: "\<forall>k<n. schema_miss (backend e (calls ?w1 + k))"
    and hit: "schema_hit (backend e (calls ?w1 + n))"
    and cn: "calls w1 = calls ?w1 + Suc n"
    by blast
  from schema_hit_Returns [OF hit] obtain rs where
    rs: "backend e (calls ?w1 + n) = Returns rs" "length (rs_rows rs) = 2" by blast
  from schema_poll_last_call [OF miss hit] p obtain obj v where
    v: "calls v = calls ?w1 + n"
      "execute e ''SELECT * from sqlite_schema'' None v = Inr (obj, w1)" "count obj = Some 2"
    by auto
  from execute_trace [OF v(2)] have
    "trace w1 \<noteq> []" "last (trace w1) = (''SELECT * from sqlite_schema'', None, obj)"
    by simp_all
  with miss rs cn v t c cw show ?thesis
    by (intro exI [of _ n] exI [of _ rs] exI [of _ obj] exI [of _ v] exI [of _ w1]) simp
qed

lemmas phase_defs =
  execute_bench_def setup_and_load_def then_do_def dropping_prior_table_def creating_def
  verifying_rejected_recreate_def waiting_schema_sync_def preparing_def loading_records_def
  waiting_read_convergence_def teardown_def build_report_def untouched_def
  with_Bench_def enter_def exit_def duration_def falsy_def Bench_def set_duration_def
  execute_def ResultObject_def init_result_set_def defaults_def first_c_def sleep_def
  now_def fresh_def Let_def

lemmas reply_defs = steady_def replies_def empty_set_def catalog_def counted_def

theorem schema_sync_completes_with_two_witness:
  "\<exists>w' obj rs. waiting_schema_sync late_schema fresh = Some (Inr ((), w'))
     \<and> calls w' = 3
     \<and> backend late_schema 2 = Returns rs \<and> length (rs_rows rs) = 2
     \<and> last (trace w') = (''SELECT * from sqlite_schema'', None, obj)
     \<and> count obj = Some 2"
proof -
  obtain w' where run: "waiting_schema_sync late_schema fresh = Some (Inr ((), w'))"
    and c: "calls w' = 3"
    by (simp add: phase_defs reply_defs late_schema_def schema_poll.simps)
  from schema_sync_completes_with_two [OF run] obtain n rs obj where
    b: "backend late_schema (calls fresh + n) = Returns rs" and l: "length (rs_rows rs) = 2"
    and cn: "calls w' = calls fresh + Suc n"
    and t: "last (trace w') = (''SELECT * from sqlite_schema'', None, obj)"
    and o: "count obj = Some 2"
    by blast
  from cn c have "n = 2" by (simp add: fresh_def)
  with b have "backend late_schema 2 = Returns rs" by (simp add: fresh_def numeral_2_eq_2)
  with run c l t o show ?thesis by blast
qed




text \<open>
  C10. When an attempt of the read-back poll is answered with a backend error, after any
  number of misses, \<open>execute\<close> returns a failed object whose \<open>records\<close> is \<^verbatim>\<open>None\<close>,
  \<^verbatim>\<open>.records[0]\<close> raises \<^verbatim>\<open>TypeError\<close>, and the exception leaves the loop, the phase and
  the run: the poll does not retry.
\<close>

theorem failed_poll_result_aborts:
  assumes "\<forall>k<n. read_miss rc (backend e (calls w + k))"
    and "backend e (calls w + n) = LibsqlError explanation cd"
  shows "(\<forall>v. calls v = calls w + n \<longrightarrow>
            (\<exists>obj v'. execute e ''SELECT count(0) as c from pony'' None v = Inr (obj, v')
               \<and> success obj = Some False \<and> records obj = None
               \<and> first_c obj = Inl TypeError))
     \<and> read_poll e rc w = Some (Inl TypeError)
     \<and> waiting_read_convergence e rc w = Some (Inl TypeError)
     \<and> (\<forall>u p. setup_and_load e rc u = Some (Inr (p, w)) \<longrightarrow>
            execute_bench e rc u = Some (Inl TypeError))"
proof -
  have x: "\<exists>obj v'. execute e ''SELECT count(0) as c from pony'' None v = Inr (obj, v')
               \<and> success obj = Some False \<and> records obj = None
               \<and> first_c obj = Inl TypeError" if "calls v = calls w + n" for v
    using that assms(2)
    by (simp add: execute_def now_def Let_def ResultObject_def defaults_def first_c_def)
  have o: "read_observed (backend e (calls w + n)) = Inl TypeError"
    using assms(2)
    by (simp add: read_observed_def respond_def ResultObject_def defaults_def first_c_def)
  from read_poll_aborts [OF assms(1) o] have p: "read_poll e rc w = Some (Inl TypeError)" .
  let ?ttl = "''waiting until all inserted data is available for read''"
  have c: "calls (snd (enter e (Bench ?ttl) w)) = calls w" by (simp add: enter_keeps)
  from assms c have "\<forall>k<n. read_miss rc (backend e (calls (snd (enter e (Bench ?ttl) w)) + k))"
    and "read_observed (backend e (calls (snd (enter e (Bench ?ttl) w)) + n)) = Inl TypeError"
    using o by simp_all
  then have "read_poll e rc (snd (enter e (Bench ?ttl) w)) = Some (Inl TypeError)"
    by (rule read_poll_aborts)
  then have q: "waiting_read_convergence e rc w = Some (Inl TypeError)"
    unfolding waiting_read_convergence_def by (intro with_Bench_raises) simp
  have r: "execute_bench e rc u = Some (Inl TypeError)"
    if "setup_and_load e rc u = Some (Inr (p, w))" for u p
    using that q by (simp add: execute_bench_def then_do_def)
  from x p q r show ?thesis by blast
qed

theorem failed_poll_result_aborts_witness:
  "\<exists>p w. setup_and_load broken_read 1 fresh = Some (Inr (p, w))
     \<and> read_poll broken_read 1 w = Some (Inl TypeError)
     \<and> waiting_read_convergence broken_read 1 w = Some (Inl TypeError)
     \<and> execute_bench broken_read 1 fresh = Some (Inl TypeError)"
proof -
  obtain p w where s: "setup_and_load broken_read 1 fresh = Some (Inr (p, w))"
    and c: "calls w = 5"
    by (simp add: phase_defs reply_defs broken_read_def schema_poll.simps)
  have a: "\<forall>k<1. read_miss 1 (backend broken_read (calls w + k))"
    using c by (simp add: broken_read_def read_miss_def read_observed_def respond_def
        ResultObject_def init_result_set_def defaults_def first_c_def counted_def)
  have b: "backend broken_read (calls w + 1)
             = LibsqlError ''no such table: pony'' ''SQLITE_UNKNOWN''"
    using c by (simp add: broken_read_def)
  from failed_poll_result_aborts [OF a b] s show ?thesis by blast
qed

section \<open>The run as a whole\<close>

lemma steady_run:
  "\<exists>w. execute_bench steady 1 fresh
       = Some (Inr (\<lparr>duration_syncing = 7, duration_insert = 7, duration_total = 49,
                   duration_total_without_waiting = 43\<rparr>, w))
     \<and> map fst (trace w) =
         [''drop table pony;'',
          ''create table pony (id INTEGER PRIMARY KEY AUTOINCREMENT, name, age, color)'',
          ''create table pony (id, name, age, color)'',
          ''SELECT * from sqlite_schema'',
          ''insert into pony(name, age, color) VALUES (?,?,?)'',
          ''SELECT count(0) as c from pony'',
          ''drop table pony;'']"
  by (simp add: phase_defs reply_defs schema_poll.simps read_poll.simps)

lemma report_gap:
  assumes "execute_bench e rc u = Some (Inr (r, w'))"
  shows "duration_total_without_waiting r - (duration_total r - duration_syncing r)
     = clock e (ticks w' - 1) - clock e (ticks w' - 2)"
  using assms
  by (auto simp: execute_bench_def then_do_def build_report_def now_def Let_def
      split: option.splits sum.splits prod.splits)

text \<open>
  C1 (the claim holds of the specification, the code departs from it). The report reads the
  clock once for \<^verbatim>\<open>duration_total\<close> and once more for
  \<^verbatim>\<open>duration_total_without_waiting\<close> (lines 187-188), so the two fields are computed from
  different instants (lemma \<open>report_gap\<close>). On \<open>steady\<close>, whose clock advances by one
  second per reading, the run with one record completes and reports a total of 49, a wait
  of 7 and a total without waiting of 43 instead of 42.
\<close>

theorem report_fields_inconsistent:
  "map_option (map_sum id fst) (execute_bench steady 1 fresh)
     = Some (Inr \<lparr>duration_syncing = 7, duration_insert = 7, duration_total = 49,
                   duration_total_without_waiting = 43\<rparr>)
   \<and> (43::real) \<noteq> 49 - 7"
  using steady_run by auto

text \<open>
  C4, as stated: the rejection check re-issues the same create statement as the creating
  phase. In the complete run on \<open>steady\<close> the second and the third statement issued are
  the two creates, and they differ.
\<close>

theorem recreate_other_statement_counterexample:
  "statements (execute_bench steady 1 fresh) ! 1
     = ''create table pony (id INTEGER PRIMARY KEY AUTOINCREMENT, name, age, color)''
   \<and> statements (execute_bench steady 1 fresh) ! 2 = ''create table pony (id, name, age, color)''
   \<and> statements (execute_bench steady 1 fresh) ! 2 \<noteq> statements (execute_bench steady 1 fresh) ! 1"
  using steady_run by (auto simp: statements_def)

text \<open>
  C4, amended: the rejection check issues a second create statement for the same table,
  with a reduced column list (not the statement of the creating phase), and asserts that
  the returned object has \<open>success = False\<close>. When it has, the phase completes; when the
  object does not report failure, the phase raises \<^verbatim>\<open>AssertionError\<close> and the run aborts
  with it.
\<close>

theorem rejected_recreate_asserts_failure:
  assumes "execute e ''create table pony (id, name, age, color)'' None
             (snd (enter e (Bench ''create table pony again. Should fail to pass'') w))
           = Inr (obj, v)"
  shows "(success obj = Some False \<longrightarrow>
            (\<exists>w'. verifying_rejected_recreate e w = Some (Inr ((), w'))
               \<and> trace w' = trace w @ [(''create table pony (id, name, age, color)'', None, obj)]))
     \<and> (success obj \<noteq> Some False \<longrightarrow>
            verifying_rejected_recreate e w = Some (Inl AssertionError)
            \<and> (\<forall>u t rc. dropping_prior_table e (snd (now e u)) = Some (Inr ((), t))
                    \<and> creating e t = Some (Inr ((), w))
                  \<longrightarrow> execute_bench e rc u = Some (Inl AssertionError)))
     \<and> (\<forall>t. creating e t = Some (Inr ((), w)) \<longrightarrow>
            (\<exists>made. last (trace w) =
               (''create table pony (id INTEGER PRIMARY KEY AUTOINCREMENT, name, age, color)'',
                None, made)))
     \<and> ''create table pony (id, name, age, color)''
          \<noteq> ''create table pony (id INTEGER PRIMARY KEY AUTOINCREMENT, name, age, color)''"
proof -
  let ?ttl = "''create table pony again. Should fail to pass''"
  let ?b = "fst (enter e (Bench ?ttl) w)" and ?w1 = "snd (enter e (Bench ?ttl) w)"
  have ok: "\<exists>w'. verifying_rejected_recreate e w = Some (Inr ((), w'))
               \<and> trace w' = trace w @ [(''create table pony (id, name, age, color)'', None, obj)]"
    if f: "success obj = Some False"
  proof -
    have st: "time_start ?b = Some (clock e (ticks w))" by (simp add: enter_keeps)
    from exit_keeps [OF st, of e v] obtain b1 w1 where
      x: "exit e ?b v = Inr (b1, w1)" and t: "trace w1 = trace v" by blast
    from execute_trace [OF assms] have "trace v = trace w
        @ [(''create table pony (id, name, age, color)'', None, obj)]"
      by (simp add: enter_keeps)
    with t have "trace w1 = trace w @ [(''create table pony (id, name, age, color)'', None, obj)]"
      by simp
    moreover have "verifying_rejected_recreate e w = Some (Inr ((), w1))"
      using assms f x
      by (cases "enter e (Bench ?ttl) w") (simp add: verifying_rejected_recreate_def with_Bench_def)
    ultimately show ?thesis by blast
  qed
  have bad: "verifying_rejected_recreate e w = Some (Inl AssertionError)"
    if "success obj \<noteq> Some False"
    using assms that
    by (cases "enter e (Bench ?ttl) w") (simp add: verifying_rejected_recreate_def with_Bench_def)
  have run: "execute_bench e rc u = Some (Inl AssertionError)"
    if "success obj \<noteq> Some False"
      and "dropping_prior_table e (snd (now e u)) = Some (Inr ((), t))"
      and "creating e t = Some (Inr ((), w))" for u t rc
    using bad [OF that(1)] that(2,3)
    by (cases "now e u") (simp add: execute_bench_def setup_and_load_def then_do_def)
  have made: "\<exists>made. last (trace w) =
               (''create table pony (id INTEGER PRIMARY KEY AUTOINCREMENT, name, age, color)'',
                None, made)"
    if c: "creating e t = Some (Inr ((), w))" for t
  proof -
    from with_Bench_returned [OF c [unfolded creating_def]] obtain b1 w1 where
      body: "(case execute e
                 ''create table pony (id INTEGER PRIMARY KEY AUTOINCREMENT, name, age, color)''
                 None (snd (enter e (Bench ''create table pony'') t)) of
                 Inl ex \<Rightarrow> Some (Inl ex)
               | Inr (obj, w1) \<Rightarrow> Some (Inr ((), fst (enter e (Bench ''create table pony'') t), w1)))
             = Some (Inr ((), b1, w1))"
      and t: "trace w = trace w1" by blast
    from body obtain made where
      "execute e ''create table pony (id INTEGER PRIMARY KEY AUTOINCREMENT, name, age, color)''
         None (snd (enter e (Bench ''create table pony'') t)) = Inr (made, w1)"
      by (auto split: sum.splits)
    from execute_trace [OF this] t show ?thesis by simp
  qed
  have diff: "''create table pony (id, name, age, color)''
          \<noteq> ''create table pony (id INTEGER PRIMARY KEY AUTOINCREMENT, name, age, color)''"
    by simp
  from ok bad run made diff show ?thesis by blast
qed

theorem rejected_recreate_asserts_failure_witness:
  "(\<exists>w'. verifying_rejected_recreate steady (fresh\<lparr>calls := 2\<rparr>) = Some (Inr ((), w'))
       \<and> map fst (trace w') = [''create table pony (id, name, age, color)''])
   \<and> (\<exists>t w. dropping_prior_table lenient (snd (now lenient fresh)) = Some (Inr ((), t))
         \<and> creating lenient t = Some (Inr ((), w))
         \<and> fst (last (trace w))
             = ''create table pony (id INTEGER PRIMARY KEY AUTOINCREMENT, name, age, color)''
         \<and> verifying_rejected_recreate lenient w = Some (Inl AssertionError))
   \<and> execute_bench lenient 1 fresh = Some (Inl AssertionError)"
proof -
  let ?ttl = "''create table pony again. Should fail to pass''"
  obtain obj v where
    x: "execute steady ''create table pony (id, name, age, color)'' None
          (snd (enter steady (Bench ?ttl) (fresh\<lparr>calls := 2\<rparr>))) = Inr (obj, v)"
    and f: "success obj = Some False"
    by (simp add: phase_defs reply_defs)
  from rejected_recreate_asserts_failure [OF x] f
  have 1: "\<exists>w'. verifying_rejected_recreate steady (fresh\<lparr>calls := 2\<rparr>) = Some (Inr ((), w'))
       \<and> map fst (trace w') = [''create table pony (id, name, age, color)'']"
    by (auto simp: fresh_def)
  obtain t where d: "dropping_prior_table lenient (snd (now lenient fresh)) = Some (Inr ((), t))"
    by (simp add: phase_defs lenient_def empty_set_def)
  obtain w where c: "creating lenient t = Some (Inr ((), w))"
    using d by (auto simp: phase_defs lenient_def empty_set_def)
  obtain obj' v' where
    y: "execute lenient ''create table pony (id, name, age, color)'' None
          (snd (enter lenient (Bench ?ttl) w)) = Inr (obj', v')"
    and g: "success obj' \<noteq> Some False"
    by (simp add: execute_def now_def Let_def ResultObject_def init_result_set_def defaults_def
        lenient_def empty_set_def)
  from rejected_recreate_asserts_failure [OF y] g d c
  have 2: "verifying_rejected_recreate lenient w = Some (Inl AssertionError)"
    and 3: "execute_bench lenient 1 fresh = Some (Inl AssertionError)"
    and 4: "\<exists>made. last (trace w) =
               (''create table pony (id INTEGER PRIMARY KEY AUTOINCREMENT, name, age, color)'',
                None, made)"
    by blast+
  from 4 have "fst (last (trace w))
             = ''create table pony (id INTEGER PRIMARY KEY AUTOINCREMENT, name, age, color)''"
    by auto
  with 1 2 3 d c show ?thesis by blast
qed

end
